theory Spec2Isabelle
  imports Main "HOL-Library.Word"
begin

section \<open>Data model of RenderTextureImplFBO.cpp\<close>

text \<open>
  Context identifiers are \<open>sf::Uint64\<close>, framebuffer and renderbuffer names are
  \<open>unsigned int\<close> (\<open>GLuint\<close>); \<open>0\<close> is "no context" respectively "no object".
  An owner object is identified by its address (the pointer \<open>&m_frameBuffers\<close> stored in
  the global set).
\<close>

type_synonym ContextId = "64 word"
type_synonym Handle = "32 word"
type_synonym address = nat

text \<open>
  The calls into the driver and the context subsystem that create or destroy a resource,
  in the order in which they are issued. Each driver call records the context that is
  active on the calling thread when it is issued; \<open>NewContext\<close> and \<open>DeleteContext\<close>
  record the owner that issues them.
\<close>

datatype gl_call =
    GenFramebuffers ContextId Handle
  | DeleteFramebuffers ContextId Handle
  | GenRenderbuffers ContextId Handle
  | DeleteRenderbuffers ContextId Handle
  | NewContext address ContextId
  | DeleteContext address ContextId

datatype fb_target = GL_FRAMEBUFFER | GL_READ_FRAMEBUFFER | GL_DRAW_FRAMEBUFFER

text \<open>
  The members of the class. \<open>m_context\<close> is the backup context (\<open>NULL\<close> is \<open>None\<close>), named
  by the identifier it reports when active. \<open>m_frameBuffers\<close> is the
  \<open>std::map<Uint64, unsigned int>\<close>, kept as the list of its entries in key order.
\<close>

record RenderTextureImplFBO =
  m_context :: "ContextId option"
  m_depthBuffer :: Handle
  m_textureId :: Handle
  m_frameBuffers :: "(ContextId \<times> Handle) list"

text \<open>
  The state the file works on: the two global sets (\<open>frameBuffers\<close> holds addresses of
  owners, \<open>staleFrameBuffers\<close> holds pairs), the live owner objects, the identifier of
  the context active on the calling thread, the framebuffer bindings of every context, and
  the calls issued so far.
\<close>

record world =
  activeContextId :: ContextId
  frameBuffers :: "address list"
  staleFrameBuffers :: "(ContextId \<times> Handle) list"
  heap :: "address \<Rightarrow> RenderTextureImplFBO option"
  readBinding :: "ContextId \<Rightarrow> Handle"
  drawBinding :: "ContextId \<Rightarrow> Handle"
  calls :: "gl_call list"

text \<open>
  What the driver and the context subsystem answer during one call of a member function:
  the names written by \<open>glGenRenderbuffers\<close> and \<open>glGenFramebuffers\<close> (\<open>0\<close> when the
  call fails), whether \<open>glCheckFramebufferStatus\<close> reports completeness, the identifier
  of a context built by \<open>new Context\<close>, and whether \<open>setActive(true)\<close> makes it current.
\<close>

record driver =
  genRenderbuffer :: Handle
  genFramebuffer :: Handle
  framebufferComplete :: bool
  newContextId :: ContextId
  setActiveOk :: bool

section \<open>Containers\<close>

text \<open>
  \<open>std::set::insert\<close> and \<open>std::map::insert\<close> on the ordered list of elements: the
  element goes to its place in the order, and nothing changes when an equivalent element
  (neither less than the other) is already there.
\<close>

fun set_insert :: "('a \<Rightarrow> 'a \<Rightarrow> bool) \<Rightarrow> 'a \<Rightarrow> 'a list \<Rightarrow> 'a list" where
  "set_insert lt x [] = [x]"
| "set_insert lt x (y # ys) =
     (if lt x y then x # y # ys
      else if lt y x then y # set_insert lt x ys
      else y # ys)"

definition pair_less :: "ContextId \<times> Handle \<Rightarrow> ContextId \<times> Handle \<Rightarrow> bool" where
  "pair_less p q = (fst p < fst q \<or> (\<not> fst q < fst p \<and> snd p < snd q))"

definition key_less :: "ContextId \<times> Handle \<Rightarrow> ContextId \<times> Handle \<Rightarrow> bool" where
  "key_less p q = (fst p < fst q)"

definition ptr_less :: "address \<Rightarrow> address \<Rightarrow> bool" where
  "ptr_less p q = (p < q)"

definition set_erase :: "address \<Rightarrow> address list \<Rightarrow> address list" where
  "set_erase p ps = filter (\<lambda>q. q \<noteq> p) ps"

section \<open>Driver calls\<close>

definition glBindFramebuffer :: "fb_target \<Rightarrow> Handle \<Rightarrow> world \<Rightarrow> world" where
  "glBindFramebuffer target h w =
     (let c = activeContextId w in
      case target of
        GL_FRAMEBUFFER \<Rightarrow>
          w\<lparr>readBinding := (readBinding w)(c := h), drawBinding := (drawBinding w)(c := h)\<rparr>
      | GL_READ_FRAMEBUFFER \<Rightarrow> w\<lparr>readBinding := (readBinding w)(c := h)\<rparr>
      | GL_DRAW_FRAMEBUFFER \<Rightarrow> w\<lparr>drawBinding := (drawBinding w)(c := h)\<rparr>)"

text \<open>
  Deleting a framebuffer acts on the context that is active; a binding of the deleted
  object in that context reverts to \<open>0\<close>.
\<close>

definition glDeleteFramebuffers :: "Handle \<Rightarrow> world \<Rightarrow> world" where
  "glDeleteFramebuffers h w =
     (let c = activeContextId w in
      w\<lparr>readBinding := (readBinding w)(c := (if readBinding w c = h then 0 else readBinding w c)),
        drawBinding := (drawBinding w)(c := (if drawBinding w c = h then 0 else drawBinding w c)),
        calls := calls w @ [DeleteFramebuffers c h]\<rparr>)"

definition issue :: "gl_call \<Rightarrow> world \<Rightarrow> world" where
  "issue e w = w\<lparr>calls := calls w @ [e]\<rparr>"

section \<open>contextDestroyCallback\<close>

text \<open>
  The inner loop over one owner's map: at the first entry whose key is the context
  identifier it yields the handle to delete and the map with that entry erased, and stops.
\<close>

fun scanOwnerMap ::
  "ContextId \<Rightarrow> (ContextId \<times> Handle) list \<Rightarrow> (Handle \<times> (ContextId \<times> Handle) list) option" where
  "scanOwnerMap contextId [] = None"
| "scanOwnerMap contextId ((k, h) # rest) =
     (if k = contextId then Some (h, rest)
      else (case scanOwnerMap contextId rest of
              None \<Rightarrow> None
            | Some (h', rest') \<Rightarrow> Some (h', (k, h) # rest')))"

text \<open>
  The outer loop over the set of live owner maps. A pointer in the set always refers to a
  live owner (constructor and destructor keep it so); an address without an object is
  passed over.
\<close>

fun destroyActive :: "ContextId \<Rightarrow> address list \<Rightarrow> world \<Rightarrow> world" where
  "destroyActive contextId [] w = w"
| "destroyActive contextId (p # ps) w =
     (case heap w p of
        None \<Rightarrow> destroyActive contextId ps w
      | Some owner \<Rightarrow>
          (case scanOwnerMap contextId (m_frameBuffers owner) of
             None \<Rightarrow> destroyActive contextId ps w
           | Some (h, rest) \<Rightarrow>
               destroyActive contextId ps
                 ((glDeleteFramebuffers h w)
                    \<lparr>heap := (heap w)(p \<mapsto> owner\<lparr>m_frameBuffers := rest\<rparr>)\<rparr>)))"

text \<open>The loop over the stale set: matching handles are deleted, the set is only read.\<close>

fun destroyStale :: "ContextId \<Rightarrow> (ContextId \<times> Handle) list \<Rightarrow> world \<Rightarrow> world" where
  "destroyStale contextId [] w = w"
| "destroyStale contextId ((k, h) # rest) w =
     destroyStale contextId rest (if k = contextId then glDeleteFramebuffers h w else w)"

definition contextDestroyCallback :: "world \<Rightarrow> world" where
  "contextDestroyCallback w =
     (let contextId = activeContextId w;
          w1 = destroyActive contextId (frameBuffers w) w
      in destroyStale contextId (staleFrameBuffers w1) w1)"

section \<open>Constructor and destructor\<close>

text \<open>
  The constructor registers the callback with the context subsystem (which then invokes
  it at every context teardown) and inserts the new, empty map into the set of live maps.
  It builds an object at an address that holds none.
\<close>

definition constructor :: "address \<Rightarrow> world \<Rightarrow> world" where
  "constructor this w =
     (case heap w this of
        Some owner \<Rightarrow> w
      | None \<Rightarrow>
          w\<lparr>heap := (heap w)(this \<mapsto>
               \<lparr>m_context = None, m_depthBuffer = 0, m_textureId = 0, m_frameBuffers = []\<rparr>),
            frameBuffers := set_insert ptr_less this (frameBuffers w)\<rparr>)"

text \<open>
  The destructor. \<open>delete m_context\<close> is recorded as a call to the context subsystem;
  the teardown of that context, during which the subsystem invokes the callback with the
  backup context current, is the subsystem's own and appears in a run as steps of its own.
\<close>

definition moveToStale :: "(ContextId \<times> Handle) list \<Rightarrow> world \<Rightarrow> world" where
  "moveToStale entries w =
     w\<lparr>staleFrameBuffers := foldl (\<lambda>s e. set_insert pair_less e s) (staleFrameBuffers w) entries\<rparr>"

definition destructor :: "address \<Rightarrow> world \<Rightarrow> world" where
  "destructor this w =
     (case heap w this of
        None \<Rightarrow> w
      | Some owner \<Rightarrow>
          (let w1 = w\<lparr>frameBuffers := set_erase this (frameBuffers w)\<rparr>;
               w2 = (if m_depthBuffer owner \<noteq> 0
                     then issue (DeleteRenderbuffers (activeContextId w1) (m_depthBuffer owner)) w1
                     else w1);
               w3 = moveToStale (m_frameBuffers owner) w2;
               w4 = contextDestroyCallback w3;
               w5 = (case m_context owner of
                       None \<Rightarrow> w4
                     | Some c \<Rightarrow> issue (DeleteContext this c) w4)
           in w5\<lparr>heap := (heap w5)(this := None)\<rparr>))"

section \<open>Creation and activation\<close>

text \<open>
  A member function is called on a live owner; in the model a call on an address that
  holds no object reports failure and leaves the state as it is.
\<close>

definition unbind :: "world \<Rightarrow> world" where
  "unbind w = glBindFramebuffer GL_FRAMEBUFFER 0 w"

definition createFrameBuffer :: "address \<Rightarrow> driver \<Rightarrow> world \<Rightarrow> bool \<times> world" where
  "createFrameBuffer this d w =
     (case heap w this of
        None \<Rightarrow> (False, w)
      | Some owner \<Rightarrow>
          (let frameBuffer = genFramebuffer d;
               w1 = issue (GenFramebuffers (activeContextId w) frameBuffer) w
           in if frameBuffer = 0 then (False, w1)
              else
                (let w2 = glBindFramebuffer GL_FRAMEBUFFER frameBuffer w1
                 in if \<not> framebufferComplete d
                    then (False, glDeleteFramebuffers frameBuffer (glBindFramebuffer GL_FRAMEBUFFER 0 w2))
                    else (True,
                          w2\<lparr>heap := (heap w2)(this \<mapsto>
                               owner\<lparr>m_frameBuffers :=
                                 set_insert key_less (activeContextId w2, frameBuffer)
                                   (m_frameBuffers owner)\<rparr>)\<rparr>))))"

text \<open>
  \<open>create\<close>; \<open>es\<close> is the compile-time switch \<open>SFML_OPENGL_ES\<close>, under which the single
  binding \<open>GL_FRAMEBUFFER_BINDING\<close> (the draw binding) is saved and restored. The
  \<open>TransientContextLock\<close> around the depth buffer is released at the end of its block
  and leaves the active context as it was.
\<close>

definition create ::
  "bool \<Rightarrow> address \<Rightarrow> 32 word \<Rightarrow> 32 word \<Rightarrow> Handle \<Rightarrow> bool \<Rightarrow> driver \<Rightarrow> world \<Rightarrow> bool \<times> world" where
  "create es this width height textureId depthBuffer d w =
     (case heap w this of
        None \<Rightarrow> (False, w)
      | Some owner \<Rightarrow>
          (let depth = genRenderbuffer d;
               owner1 = (if depthBuffer then owner\<lparr>m_depthBuffer := depth\<rparr> else owner);
               w1 = (if depthBuffer
                     then (issue (GenRenderbuffers (activeContextId w) depth) w)
                            \<lparr>heap := (heap w)(this \<mapsto> owner1)\<rparr>
                     else w)
           in if depthBuffer \<and> m_depthBuffer owner1 = 0 then (False, w1)
              else
                (let w2 = w1\<lparr>heap := (heap w1)(this \<mapsto> owner1\<lparr>m_textureId := textureId\<rparr>)\<rparr>
                 in if activeContextId w2 = 0 then (True, w2)
                    else
                      (let readFramebuffer =
                             (if es then drawBinding w2 (activeContextId w2)
                              else readBinding w2 (activeContextId w2));
                           drawFramebuffer = drawBinding w2 (activeContextId w2);
                           r = createFrameBuffer this d w2
                       in if fst r
                          then (True,
                                if es then glBindFramebuffer GL_FRAMEBUFFER readFramebuffer (snd r)
                                else glBindFramebuffer GL_DRAW_FRAMEBUFFER drawFramebuffer
                                       (glBindFramebuffer GL_READ_FRAMEBUFFER readFramebuffer (snd r)))
                          else (False, snd r)))))"

text \<open>
  The backup context: built on first need, then made current. When \<open>setActive\<close> fails the
  thread stays without a context.
\<close>

definition activateBackupContext :: "address \<Rightarrow> driver \<Rightarrow> world \<Rightarrow> world" where
  "activateBackupContext this d w =
     (case heap w this of
        None \<Rightarrow> w
      | Some owner \<Rightarrow>
          (case m_context owner of
             None \<Rightarrow>
               (let w1 = (issue (NewContext this (newContextId d)) w)
                           \<lparr>heap := (heap w)(this \<mapsto> owner\<lparr>m_context := Some (newContextId d)\<rparr>)\<rparr>
                in if setActiveOk d then w1\<lparr>activeContextId := newContextId d\<rparr> else w1)
           | Some c \<Rightarrow> (if setActiveOk d then w\<lparr>activeContextId := c\<rparr> else w)))"

text \<open>The lookup of the framebuffer for the active context, and its creation when none is found.\<close>

definition lookupOrCreate :: "address \<Rightarrow> driver \<Rightarrow> world \<Rightarrow> bool \<times> world" where
  "lookupOrCreate this d w =
     (case heap w this of
        None \<Rightarrow> (False, w)
      | Some owner \<Rightarrow>
          (case map_of (m_frameBuffers owner) (activeContextId w) of
             Some h \<Rightarrow> (True, glBindFramebuffer GL_FRAMEBUFFER h w)
           | None \<Rightarrow> createFrameBuffer this d w))"

definition activate :: "address \<Rightarrow> bool \<Rightarrow> driver \<Rightarrow> world \<Rightarrow> bool \<times> world" where
  "activate this active d w =
     (if \<not> active then (True, glBindFramebuffer GL_FRAMEBUFFER 0 w)
      else
        (case heap w this of
           None \<Rightarrow> (False, w)
         | Some owner \<Rightarrow>
             (if activeContextId w = 0
              then (let w1 = activateBackupContext this d w
                    in if activeContextId w1 = 0 then (False, w1)
                       else lookupOrCreate this d w1)
              else lookupOrCreate this d w)))"

definition updateTexture :: "address \<Rightarrow> Handle \<Rightarrow> world \<Rightarrow> world" where
  "updateTexture this textureId w = w"

section \<open>Sequences of operations\<close>

text \<open>
  What can happen to the registry, one step at a time: the member functions of an owner,
  the callback invoked by the context subsystem at the teardown of the context that is
  current, and a change of the context that is current on the thread (made from outside
  this file).
\<close>

datatype operation =
    Construct address
  | Destroy address
  | Create address "32 word" "32 word" Handle bool driver
  | Activate address bool driver
  | ContextDestroyed
  | SetActiveContext ContextId

fun step :: "bool \<Rightarrow> operation \<Rightarrow> world \<Rightarrow> world" where
  "step es (Construct a) w = constructor a w"
| "step es (Destroy a) w = destructor a w"
| "step es (Create a width height textureId depthBuffer d) w =
     snd (create es a width height textureId depthBuffer d w)"
| "step es (Activate a active d) w = snd (activate a active d w)"
| "step es ContextDestroyed w = contextDestroyCallback w"
| "step es (SetActiveContext c) w = w\<lparr>activeContextId := c\<rparr>"

definition run :: "bool \<Rightarrow> operation list \<Rightarrow> world \<Rightarrow> world" where
  "run es ops w = foldl (\<lambda>s x. step es x s) w ops"

definition initial :: world where
  "initial =
     \<lparr>activeContextId = 0, frameBuffers = [], staleFrameBuffers = [], heap = (\<lambda>a. None),
      readBinding = (\<lambda>c. 0), drawBinding = (\<lambda>c. 0), calls = []\<rparr>"

section \<open>Notions used in the properties\<close>

text \<open>The calls issued between an earlier state and a later one.\<close>

definition issued :: "world \<Rightarrow> world \<Rightarrow> gl_call list" where
  "issued w w' = drop (length (calls w)) (calls w')"


text \<open>
  The handles the callback deletes: for each live owner the one stored under the context
  identifier, and every handle of the stale set paired with it.
\<close>

definition liveDeletes :: "ContextId \<Rightarrow> address list \<Rightarrow> (address \<Rightarrow> RenderTextureImplFBO option) \<Rightarrow> Handle list" where
  "liveDeletes c ps hp =
     concat (map (\<lambda>p. case hp p of None \<Rightarrow> []
                       | Some owner \<Rightarrow> (case map_of (m_frameBuffers owner) c of None \<Rightarrow> [] | Some h \<Rightarrow> [h])) ps)"

definition staleDeletes :: "ContextId \<Rightarrow> (ContextId \<times> Handle) list \<Rightarrow> Handle list" where
  "staleDeletes c xs = map snd (filter (\<lambda>e. fst e = c) xs)"

text \<open>
  A handle is tagged with a context identifier when it is stored under that key, in the
  map of a live owner or in the stale set.
\<close>

definition tagged :: "world \<Rightarrow> ContextId \<Rightarrow> Handle \<Rightarrow> bool" where
  "tagged w c h =
     ((c, h) \<in> set (staleFrameBuffers w) \<or>
      (\<exists>p owner. heap w p = Some owner \<and> (c, h) \<in> set (m_frameBuffers owner)))"

text \<open>
  A list of calls deletes only framebuffers that it generated itself, and does so under
  the context \<open>c\<close>.
\<close>

definition ownDeletes :: "ContextId \<Rightarrow> gl_call list \<Rightarrow> bool" where
  "ownDeletes c ds =
     (\<forall>k h. DeleteFramebuffers k h \<in> set ds \<longrightarrow> k = c \<and> GenFramebuffers k h \<in> set ds)"

text \<open>
  The shape the containers have by their \<open>std::set\<close> and \<open>std::map\<close> types, and the
  agreement between the set of live maps and the live owners.
\<close>

definition registry_ok :: "world \<Rightarrow> bool" where
  "registry_ok w =
     (sorted_wrt ptr_less (frameBuffers w) \<and> set (frameBuffers w) = dom (heap w) \<and>
      (\<forall>p owner. heap w p = Some owner \<longrightarrow> sorted_wrt key_less (m_frameBuffers owner)))"


text \<open>
  The number of backup contexts an owner has built so far, and the backup context it holds
  (\<open>None\<close> also when there is no owner at the address).
\<close>

fun isNewContextOf :: "address \<Rightarrow> gl_call \<Rightarrow> bool" where
  "isNewContextOf a (NewContext b c) = (a = b)"
| "isNewContextOf a e = False"

definition backupCreations :: "address \<Rightarrow> world \<Rightarrow> nat" where
  "backupCreations a w = length (filter (isNewContextOf a) (calls w))"

definition backupContext :: "world \<Rightarrow> address \<Rightarrow> ContextId option" where
  "backupContext w a = (case heap w a of None \<Rightarrow> None | Some owner \<Rightarrow> m_context owner)"




section \<open>Concrete scenarios\<close>

text \<open>A driver that hands out the framebuffer name \<open>h\<close> and reports it complete.\<close>

definition driverGiving :: "Handle \<Rightarrow> driver" where
  "driverGiving h =
     \<lparr>genRenderbuffer = 0, genFramebuffer = h, framebufferComplete = True,
      newContextId = 0, setActiveOk = False\<rparr>"

text \<open>
  One owner at address \<open>1\<close>, activated under context \<open>1\<close>, where it gets
  framebuffer \<open>5\<close>.
\<close>

definition ownerUnderContext1 :: "operation list" where
  "ownerUnderContext1 = [Construct 1, SetActiveContext 1, Activate 1 True (driverGiving 5)]"

text \<open>
  The same owner destroyed while context \<open>2\<close> is current, so that its framebuffer
  waits in the stale set; then context \<open>1\<close> is made current for its teardown.
\<close>

definition orphanedWorld :: world where
  "orphanedWorld =
     run False (ownerUnderContext1 @ [SetActiveContext 2, Destroy 1, SetActiveContext 1]) initial"

text \<open>
  Two owners activated under context \<open>1\<close> (framebuffers \<open>5\<close> and \<open>6\<close>), the second
  also under context \<open>2\<close> (framebuffer \<open>7\<close>); then the first owner is destroyed while
  context \<open>2\<close> is current, and context \<open>1\<close> is made current.
\<close>

definition mixedWorld :: world where
  "mixedWorld =
     run False
       [Construct 1, Construct 2, SetActiveContext 1, Activate 1 True (driverGiving 5),
        Activate 2 True (driverGiving 6), SetActiveContext 2, Activate 2 True (driverGiving 7),
        Destroy 1, SetActiveContext 1] initial"


text \<open>One owner at address \<open>1\<close>, not yet activated, with context \<open>1\<close> current.\<close>

definition oneOwner :: world where
  "oneOwner = run False [Construct 1, SetActiveContext 1] initial"

text \<open>A driver that hands out the framebuffer name \<open>h\<close> and reports it incomplete.\<close>

definition driverRejecting :: "Handle \<Rightarrow> driver" where
  "driverRejecting h =
     \<lparr>genRenderbuffer = 0, genFramebuffer = h, framebufferComplete = False,
      newContextId = 0, setActiveOk = False\<rparr>"

text \<open>
  Two owners with context \<open>1\<close> current; the second one has been activated and its
  framebuffer \<open>3\<close> is bound for reading and drawing.
\<close>

definition boundWorld :: world where
  "boundWorld =
     run False [Construct 1, Construct 2, SetActiveContext 1, Activate 2 True (driverGiving 3)]
       initial"

text \<open>
  A driver and context subsystem under which a backup context gets identifier \<open>9\<close> and
  becomes current, and framebuffer \<open>5\<close> is complete; and one owner with no context
  current.
\<close>

definition backupDriver :: driver where
  "backupDriver =
     \<lparr>genRenderbuffer = 0, genFramebuffer = 5, framebufferComplete = True,
      newContextId = 9, setActiveOk = True\<rparr>"

definition noContextOwner :: world where
  "noContextOwner = run False [Construct 1] initial"

section \<open>The driver calls and the callback's loops\<close>

lemma glBindFramebuffer_frame [simp]:
  "activeContextId (glBindFramebuffer t h w) = activeContextId w"
  "frameBuffers (glBindFramebuffer t h w) = frameBuffers w"
  "staleFrameBuffers (glBindFramebuffer t h w) = staleFrameBuffers w"
  "heap (glBindFramebuffer t h w) = heap w"
  "calls (glBindFramebuffer t h w) = calls w"
  by (simp_all add: glBindFramebuffer_def Let_def split: fb_target.split)

lemma glDeleteFramebuffers_frame [simp]:
  "activeContextId (glDeleteFramebuffers h w) = activeContextId w"
  "frameBuffers (glDeleteFramebuffers h w) = frameBuffers w"
  "staleFrameBuffers (glDeleteFramebuffers h w) = staleFrameBuffers w"
  "heap (glDeleteFramebuffers h w) = heap w"
  "calls (glDeleteFramebuffers h w) = calls w @ [DeleteFramebuffers (activeContextId w) h]"
  by (simp_all add: glDeleteFramebuffers_def Let_def)

lemma issue_frame [simp]:
  "activeContextId (issue e w) = activeContextId w"
  "frameBuffers (issue e w) = frameBuffers w"
  "staleFrameBuffers (issue e w) = staleFrameBuffers w"
  "heap (issue e w) = heap w"
  "readBinding (issue e w) = readBinding w"
  "drawBinding (issue e w) = drawBinding w"
  "calls (issue e w) = calls w @ [e]"
  by (simp_all add: issue_def)

lemma scanOwnerMap_None: "(scanOwnerMap c m = None) = (map_of m c = None)"
  by (induction m) (auto split: option.splits)

lemma scanOwnerMap_Some:
  "scanOwnerMap c m = Some (h, rest) \<Longrightarrow> map_of m c = Some h"
  by (induction m arbitrary: h rest) (auto split: option.splits if_splits)

lemma scanOwnerMap_rest_subset:
  "scanOwnerMap c m = Some (h, rest) \<Longrightarrow> set rest \<subseteq> set m"
  by (induction m arbitrary: h rest) (fastforce split: option.splits if_splits)+

lemma destroyStale_frame [simp]:
  "activeContextId (destroyStale c xs w) = activeContextId w"
  "frameBuffers (destroyStale c xs w) = frameBuffers w"
  "staleFrameBuffers (destroyStale c xs w) = staleFrameBuffers w"
  "heap (destroyStale c xs w) = heap w"
  by (induction c xs w rule: destroyStale.induct; simp)+

lemma destroyStale_calls:
  "calls (destroyStale c xs w) =
     calls w @ map (DeleteFramebuffers (activeContextId w)) (staleDeletes c xs)"
  by (induction c xs w rule: destroyStale.induct) (auto simp: staleDeletes_def)

lemma destroyActive_frame [simp]:
  "activeContextId (destroyActive c ps w) = activeContextId w"
  "frameBuffers (destroyActive c ps w) = frameBuffers w"
  "staleFrameBuffers (destroyActive c ps w) = staleFrameBuffers w"
  by (induction c ps w rule: destroyActive.induct; simp split: option.splits)+

lemma liveDeletes_cong:
  "(\<And>p. p \<in> set ps \<Longrightarrow> hp p = hp' p) \<Longrightarrow> liveDeletes c ps hp = liveDeletes c ps hp'"
  unfolding liveDeletes_def by (induction ps) auto

lemma destroyActive_calls:
  "distinct ps \<Longrightarrow>
   calls (destroyActive c ps w) =
     calls w @ map (DeleteFramebuffers (activeContextId w)) (liveDeletes c ps (heap w))"
proof (induction ps arbitrary: w)
  case Nil
  then show ?case by (simp add: liveDeletes_def)
next
  case (Cons p ps)
  then have d: "distinct ps" and np: "p \<notin> set ps" by simp_all
  have split: "liveDeletes c (p # ps) (heap w) = liveDeletes c [p] (heap w) @ liveDeletes c ps (heap w)"
    by (simp add: liveDeletes_def)
  show ?case
  proof (cases "heap w p")
    case None
    then show ?thesis using Cons.IH [OF d, of w] by (simp add: liveDeletes_def)
  next
    case (Some owner)
    show ?thesis
    proof (cases "scanOwnerMap c (m_frameBuffers owner)")
      case None
      then have "map_of (m_frameBuffers owner) c = None" by (simp add: scanOwnerMap_None)
      then show ?thesis using Some None Cons.IH [OF d, of w] by (simp add: liveDeletes_def)
    next
      case scan: (Some r)
      obtain h rest where r: "r = (h, rest)" by (cases r)
      note Some2 = scan
      let ?w' = "(glDeleteFramebuffers h w)\<lparr>heap := (heap w)(p \<mapsto> owner\<lparr>m_frameBuffers := rest\<rparr>)\<rparr>"
      have m: "map_of (m_frameBuffers owner) c = Some h"
        using Some2 r by (simp add: scanOwnerMap_Some)
      have same: "liveDeletes c ps (heap ?w') = liveDeletes c ps (heap w)"
        by (rule liveDeletes_cong) (use np in auto)
      have "calls (destroyActive c (p # ps) w) = calls (destroyActive c ps ?w')"
        using Some Some2 r by simp
      also have "\<dots> = calls ?w' @ map (DeleteFramebuffers (activeContextId ?w')) (liveDeletes c ps (heap ?w'))"
        by (rule Cons.IH [OF d])
      finally show ?thesis using Some m same by (simp add: liveDeletes_def)
    qed
  qed
qed


section \<open>Evaluation of concrete scenarios\<close>

lemmas eval_defs =
  run_def initial_def driverGiving_def ownerUnderContext1_def orphanedWorld_def
  constructor_def destructor_def activate_def lookupOrCreate_def createFrameBuffer_def
  create_def activateBackupContext_def
  contextDestroyCallback_def glBindFramebuffer_def glDeleteFramebuffers_def issue_def
  moveToStale_def set_erase_def ptr_less_def key_less_def pair_less_def Let_def

section \<open>Claims about the stale set\<close>

text \<open>
  C1 (each surface handle is destroyed at most once, also when the callback runs again for
  the same context). The code at the scenario of the claim: an owner gets framebuffer
  \<open>5\<close> under context \<open>1\<close>, is destroyed while context \<open>1\<close> is current (the
  destructor runs the callback), and then context \<open>1\<close> is torn down (the callback runs
  again). The stale loop deletes the handle without erasing its pair, so the deletion is
  issued twice.
\<close>

theorem stale_handle_deleted_twice:
  "calls (run False (ownerUnderContext1 @ [Destroy 1, ContextDestroyed]) initial) =
     [GenFramebuffers 1 5, DeleteFramebuffers 1 5, DeleteFramebuffers 1 5]"
  by (simp add: eval_defs)

text \<open>
  C2 (after the callback the stale set holds no pair keyed by the current context). The code
  at a stale set holding \<open>(1, 5)\<close> with context \<open>1\<close> current: the handle is deleted
  through the driver, and the pair is still in the set when the callback returns.
\<close>

theorem stale_pair_survives_callback:
  "staleFrameBuffers orphanedWorld = [(1, 5)] \<and> activeContextId orphanedWorld = 1 \<and>
   issued orphanedWorld (contextDestroyCallback orphanedWorld) = [DeleteFramebuffers 1 5] \<and>
   staleFrameBuffers (contextDestroyCallback orphanedWorld) = [(1, 5)]"
  by (simp add: eval_defs issued_def)

section \<open>Creation without a context\<close>

text \<open>
  C10: \<open>create\<close> without a depth buffer, called while no context is active, returns
  \<open>true\<close>; it only stores the texture identifier: no driver call is issued and the
  owner's map is left as it is.
\<close>

theorem create_without_context_defers:
  assumes "heap w this = Some owner" and "activeContextId w = 0"
  shows "create es this width height textureId False d w =
           (True, w\<lparr>heap := (heap w)(this \<mapsto> owner\<lparr>m_textureId := textureId\<rparr>)\<rparr>)"
  using assms by (simp add: create_def)

theorem create_without_context_defers_witness:
  "heap (constructor 1 initial) 1 =
     Some \<lparr>m_context = None, m_depthBuffer = 0, m_textureId = 0, m_frameBuffers = []\<rparr> \<and>
   activeContextId (constructor 1 initial) = 0 \<and>
   fst (create False 1 64 64 7 False (driverGiving 5) (constructor 1 initial)) \<and>
   calls (snd (create False 1 64 64 7 False (driverGiving 5) (constructor 1 initial))) = [] \<and>
   map_option m_frameBuffers
     (heap (snd (create False 1 64 64 7 False (driverGiving 5) (constructor 1 initial))) 1) = Some []"
proof -
  have h: "heap (constructor 1 initial) 1 =
     Some \<lparr>m_context = None, m_depthBuffer = 0, m_textureId = 0, m_frameBuffers = []\<rparr>"
    by (simp add: constructor_def initial_def)
  have a: "activeContextId (constructor 1 initial) = 0"
    by (simp add: constructor_def initial_def)
  show ?thesis
    using h a create_without_context_defers [OF h a, of False 64 64 7 "driverGiving 5"]
    by (simp add: constructor_def initial_def)
qed

section \<open>Ordered containers\<close>


lemma set_insert_set:
  "(\<And>a b. \<not> lt a b \<Longrightarrow> \<not> lt b a \<Longrightarrow> a = b) \<Longrightarrow> set (set_insert lt x ys) = insert x (set ys)"
  by (induction ys) auto


lemma pair_less_total: "\<not> pair_less p q \<Longrightarrow> \<not> pair_less q p \<Longrightarrow> p = q"
  by (cases p; cases q) (auto simp: pair_less_def)

lemma stale_insert_set: "set (set_insert pair_less e s) = insert e (set s)"
  by (rule set_insert_set) (rule pair_less_total)

lemma moveToStale_set:
  "set (foldl (\<lambda>s e. set_insert pair_less e s) s es) = set s \<union> set es"
  by (induction es arbitrary: s) (auto simp: stale_insert_set)



lemma ptr_sorted_distinct: "sorted_wrt ptr_less ps \<Longrightarrow> distinct ps"
  by (induction ps) (auto simp: ptr_less_def)




lemma key_sorted_distinct: "sorted_wrt key_less m \<Longrightarrow> distinct (map fst m)"
  by (induction m) (auto simp: key_less_def)

lemma key_insert_map_of:
  "map_of m k = None \<Longrightarrow>
   map_of (set_insert key_less (k, v) m) x = (if x = k then Some v else map_of m x)"
proof (induction m)
  case Nil
  then show ?case by simp
next
  case (Cons e m)
  obtain k' v' where e: "e = (k', v')" by (cases e)
  with Cons.prems have ne: "k' \<noteq> k" and rest: "map_of m k = None"
    by (auto split: if_splits)
  from ne have "k < k' \<or> k' < k" by auto
  then show ?case using e ne Cons.IH [OF rest] by (auto simp: key_less_def)
qed



lemma map_of_is_member: "distinct (map fst m) \<Longrightarrow> (map_of m k = Some v) = ((k, v) \<in> set m)"
  by (auto dest: map_of_SomeD intro: map_of_is_SomeI)

section \<open>Calls issued by the callback and the destructor\<close>

lemma issued_append: "calls w' = calls w @ ds \<Longrightarrow> issued w w' = ds"
  by (simp add: issued_def)

lemma staleDeletes_set: "set (staleDeletes c xs) = {h. (c, h) \<in> set xs}"
  by (force simp: staleDeletes_def)

lemma destroyActive_calls_sound:
  "\<exists>hs. calls (destroyActive c ps w) = calls w @ map (DeleteFramebuffers (activeContextId w)) hs \<and>
        (\<forall>h\<in>set hs. \<exists>p owner. heap w p = Some owner \<and> (c, h) \<in> set (m_frameBuffers owner))"
proof (induction ps arbitrary: w)
  case Nil
  show ?case by (rule exI [of _ "[]"]) simp
next
  case (Cons p ps)
  show ?case
  proof (cases "heap w p")
    case None
    then show ?thesis using Cons.IH [of w] by simp
  next
    case (Some owner)
    show ?thesis
    proof (cases "scanOwnerMap c (m_frameBuffers owner)")
      case None
      then show ?thesis using Some Cons.IH [of w] by simp
    next
      case scan: (Some r)
      obtain h rest where r: "r = (h, rest)" by (cases r)
      let ?w' = "(glDeleteFramebuffers h w)\<lparr>heap := (heap w)(p \<mapsto> owner\<lparr>m_frameBuffers := rest\<rparr>)\<rparr>"
      from Cons.IH [of ?w'] obtain hs where
        c: "calls (destroyActive c ps ?w') = calls ?w' @ map (DeleteFramebuffers (activeContextId ?w')) hs"
        and m: "\<forall>x\<in>set hs. \<exists>q o'. heap ?w' q = Some o' \<and> (c, x) \<in> set (m_frameBuffers o')"
        by blast
      have first: "(c, h) \<in> set (m_frameBuffers owner)"
        using scan r by (auto dest: scanOwnerMap_Some map_of_SomeD)
      have sub: "set rest \<subseteq> set (m_frameBuffers owner)"
        using scan r by (auto dest: scanOwnerMap_rest_subset)
      have old: "\<exists>q o'. heap w q = Some o' \<and> (c, x) \<in> set (m_frameBuffers o')" if "x \<in> set hs" for x
      proof -
        from m that obtain q o' where q: "heap ?w' q = Some o'" "(c, x) \<in> set (m_frameBuffers o')"
          by blast
        show ?thesis
        proof (cases "q = p")
          case True
          with q sub have "(c, x) \<in> set (m_frameBuffers owner)" by auto
          with Some show ?thesis by blast
        next
          case False
          with q show ?thesis by auto
        qed
      qed
      have "calls (destroyActive c (p # ps) w) =
              calls w @ map (DeleteFramebuffers (activeContextId w)) (h # hs)"
        using Some scan r c by simp
      moreover have "\<forall>x\<in>set (h # hs). \<exists>q o'. heap w q = Some o' \<and> (c, x) \<in> set (m_frameBuffers o')"
        using first Some old by auto
      ultimately show ?thesis by blast
    qed
  qed
qed

lemma callback_frame [simp]:
  "activeContextId (contextDestroyCallback w) = activeContextId w"
  "frameBuffers (contextDestroyCallback w) = frameBuffers w"
  "staleFrameBuffers (contextDestroyCallback w) = staleFrameBuffers w"
  by (simp_all add: contextDestroyCallback_def Let_def)

lemma callback_heap: "heap (contextDestroyCallback w) = heap (destroyActive (activeContextId w) (frameBuffers w) w)"
  by (simp add: contextDestroyCallback_def Let_def)

lemma callback_calls_sound:
  "\<exists>hs. calls (contextDestroyCallback w) =
          calls w @ map (DeleteFramebuffers (activeContextId w)) hs \<and>
        (\<forall>h\<in>set hs. tagged w (activeContextId w) h) \<and>
        (\<forall>h. (activeContextId w, h) \<in> set (staleFrameBuffers w) \<longrightarrow> h \<in> set hs)"
proof -
  let ?c = "activeContextId w"
  obtain hs where
    c: "calls (destroyActive ?c (frameBuffers w) w) = calls w @ map (DeleteFramebuffers ?c) hs"
    and m: "\<forall>h\<in>set hs. \<exists>p owner. heap w p = Some owner \<and> (?c, h) \<in> set (m_frameBuffers owner)"
    using destroyActive_calls_sound [of ?c "frameBuffers w" w] by blast
  let ?all = "hs @ staleDeletes ?c (staleFrameBuffers w)"
  have "calls (contextDestroyCallback w) = calls w @ map (DeleteFramebuffers ?c) ?all"
    by (simp add: contextDestroyCallback_def Let_def destroyStale_calls c)
  moreover have "\<forall>h\<in>set ?all. tagged w ?c h"
    using m by (auto simp: tagged_def staleDeletes_set)
  moreover have "\<forall>h. (?c, h) \<in> set (staleFrameBuffers w) \<longrightarrow> h \<in> set ?all"
    by (simp add: staleDeletes_set)
  ultimately show ?thesis by blast
qed

lemma moveToStale_frame [simp]:
  "activeContextId (moveToStale es w) = activeContextId w"
  "frameBuffers (moveToStale es w) = frameBuffers w"
  "heap (moveToStale es w) = heap w"
  "calls (moveToStale es w) = calls w"
  "set (staleFrameBuffers (moveToStale es w)) = set (staleFrameBuffers w) \<union> set es"
  by (simp_all add: moveToStale_def moveToStale_set)

lemma destructor_frame:
  "activeContextId (destructor this w) = activeContextId w"
  "set (staleFrameBuffers w) \<subseteq> set (staleFrameBuffers (destructor this w))"
  by (auto simp: destructor_def Let_def split: option.splits)



lemma destructor_calls:
  assumes "heap w this = Some owner"
  shows "\<exists>hs. calls (destructor this w) =
           calls w @
           (if m_depthBuffer owner \<noteq> 0
            then [DeleteRenderbuffers (activeContextId w) (m_depthBuffer owner)] else []) @
           map (DeleteFramebuffers (activeContextId w)) hs @
           (case m_context owner of None \<Rightarrow> [] | Some k \<Rightarrow> [DeleteContext this k]) \<and>
         (\<forall>h\<in>set hs. tagged w (activeContextId w) h) \<and>
         (\<forall>h. (activeContextId w, h) \<in> set (m_frameBuffers owner) \<longrightarrow> h \<in> set hs) \<and>
         (\<forall>h. (activeContextId w, h) \<in> set (staleFrameBuffers w) \<longrightarrow> h \<in> set hs)"
proof -
  let ?c = "activeContextId w"
  let ?w1 = "w\<lparr>frameBuffers := set_erase this (frameBuffers w)\<rparr>"
  let ?w2 = "if m_depthBuffer owner \<noteq> 0
             then issue (DeleteRenderbuffers (activeContextId ?w1) (m_depthBuffer owner)) ?w1 else ?w1"
  let ?w3 = "moveToStale (m_frameBuffers owner) ?w2"
  obtain hs where
    c: "calls (contextDestroyCallback ?w3) = calls ?w3 @ map (DeleteFramebuffers (activeContextId ?w3)) hs"
    and t: "\<forall>h\<in>set hs. tagged ?w3 (activeContextId ?w3) h"
    and s: "\<forall>h. (activeContextId ?w3, h) \<in> set (staleFrameBuffers ?w3) \<longrightarrow> h \<in> set hs"
    using callback_calls_sound [of ?w3] by blast
  have a3: "activeContextId ?w3 = ?c" by simp
  have h3: "heap ?w3 = heap w" by simp
  have s3: "set (staleFrameBuffers ?w3) = set (staleFrameBuffers w) \<union> set (m_frameBuffers owner)"
    by simp
  have t': "\<forall>h\<in>set hs. tagged w ?c h"
  proof
    fix h assume "h \<in> set hs"
    with t a3 have "tagged ?w3 ?c h" by simp
    then show "tagged w ?c h"
      unfolding tagged_def h3 s3 using assms by blast
  qed
  have s': "\<forall>h. (?c, h) \<in> set (m_frameBuffers owner) \<longrightarrow> h \<in> set hs"
    using s a3 s3 by simp
  have s'': "\<forall>h. (?c, h) \<in> set (staleFrameBuffers w) \<longrightarrow> h \<in> set hs"
    using s a3 s3 by simp
  have c2: "calls ?w3 =
      calls w @ (if m_depthBuffer owner \<noteq> 0
                 then [DeleteRenderbuffers ?c (m_depthBuffer owner)] else [])"
    by simp
  have c3: "calls (contextDestroyCallback ?w3) =
      (calls w @ (if m_depthBuffer owner \<noteq> 0
                  then [DeleteRenderbuffers ?c (m_depthBuffer owner)] else [])) @
      map (DeleteFramebuffers ?c) hs"
    by (simp only: c a3 c2)
  have d: "calls (destructor this w) =
      calls (contextDestroyCallback ?w3) @
      (case m_context owner of None \<Rightarrow> [] | Some k \<Rightarrow> [DeleteContext this k])"
    using assms by (simp add: destructor_def Let_def split: option.splits)
  have "calls (destructor this w) =
           calls w @
           (if m_depthBuffer owner \<noteq> 0
            then [DeleteRenderbuffers ?c (m_depthBuffer owner)] else []) @
           map (DeleteFramebuffers ?c) hs @
           (case m_context owner of None \<Rightarrow> [] | Some k \<Rightarrow> [DeleteContext this k])"
    by (simp only: d c3 append_assoc)
  with t' s' s'' show ?thesis by blast
qed

section \<open>Calls issued by creation and activation\<close>

lemma createFrameBuffer_frame [simp]:
  "activeContextId (snd (createFrameBuffer this d w)) = activeContextId w"
  "frameBuffers (snd (createFrameBuffer this d w)) = frameBuffers w"
  "staleFrameBuffers (snd (createFrameBuffer this d w)) = staleFrameBuffers w"
  by (simp_all add: createFrameBuffer_def Let_def split: option.splits)

lemma createFrameBuffer_calls:
  "\<exists>ds. calls (snd (createFrameBuffer this d w)) = calls w @ ds \<and> ownDeletes (activeContextId w) ds"
proof (cases "heap w this")
  case None
  then have "calls (snd (createFrameBuffer this d w)) = calls w @ []"
    by (simp add: createFrameBuffer_def)
  moreover have "ownDeletes (activeContextId w) []" by (simp add: ownDeletes_def)
  ultimately show ?thesis by blast
next
  case (Some owner)
  let ?c = "activeContextId w" and ?f = "genFramebuffer d"
  let ?ds = "GenFramebuffers ?c ?f #
             (if ?f \<noteq> 0 \<and> \<not> framebufferComplete d then [DeleteFramebuffers ?c ?f] else [])"
  have "calls (snd (createFrameBuffer this d w)) = calls w @ ?ds"
    using Some by (simp add: createFrameBuffer_def Let_def)
  moreover have "ownDeletes ?c ?ds" by (simp add: ownDeletes_def)
  ultimately show ?thesis by blast
qed

lemma lookupOrCreate_frame [simp]:
  "activeContextId (snd (lookupOrCreate this d w)) = activeContextId w"
  "frameBuffers (snd (lookupOrCreate this d w)) = frameBuffers w"
  "staleFrameBuffers (snd (lookupOrCreate this d w)) = staleFrameBuffers w"
  by (simp_all add: lookupOrCreate_def split: option.splits)

lemma lookupOrCreate_calls:
  "\<exists>ds. calls (snd (lookupOrCreate this d w)) = calls w @ ds \<and> ownDeletes (activeContextId w) ds"
proof (cases "\<exists>owner h. heap w this = Some owner \<and> map_of (m_frameBuffers owner) (activeContextId w) = Some h")
  case True
  then have "calls (snd (lookupOrCreate this d w)) = calls w @ []"
    by (auto simp: lookupOrCreate_def)
  moreover have "ownDeletes (activeContextId w) []" by (simp add: ownDeletes_def)
  ultimately show ?thesis by blast
next
  case False
  then have "snd (lookupOrCreate this d w) = snd (createFrameBuffer this d w)"
    by (auto simp: lookupOrCreate_def createFrameBuffer_def split: option.splits)
  then show ?thesis using createFrameBuffer_calls [of this d w] by simp
qed

lemma activateBackupContext_frame [simp]:
  "frameBuffers (activateBackupContext this d w) = frameBuffers w"
  "staleFrameBuffers (activateBackupContext this d w) = staleFrameBuffers w"
  by (simp_all add: activateBackupContext_def Let_def split: option.splits)

lemma activateBackupContext_calls:
  "calls (activateBackupContext this d w) =
     calls w @ (case heap w this of
                  None \<Rightarrow> []
                | Some owner \<Rightarrow>
                    (case m_context owner of
                       None \<Rightarrow> [NewContext this (newContextId d)]
                     | Some c \<Rightarrow> []))"
  by (simp add: activateBackupContext_def Let_def split: option.splits)

lemma activate_frame [simp]:
  "frameBuffers (snd (activate this active d w)) = frameBuffers w"
  "staleFrameBuffers (snd (activate this active d w)) = staleFrameBuffers w"
  by (simp_all add: activate_def Let_def split: option.splits)

lemma activate_calls:
  "\<exists>ds. calls (snd (activate this active d w)) = calls w @ ds \<and>
        ownDeletes (activeContextId (snd (activate this active d w))) ds"
proof -
  have nil: "ownDeletes c []" for c by (simp add: ownDeletes_def)
  let ?w1 = "activateBackupContext this d w"
  obtain e where e: "calls ?w1 = calls w @ e" "e = [] \<or> e = [NewContext this (newContextId d)]"
    by (auto simp: activateBackupContext_calls split: option.splits)
  have pre: "ownDeletes c (e @ ds)" if "ownDeletes c ds" for c ds
    using e(2) that by (auto simp: ownDeletes_def)
  consider (off) "\<not> active" | (gone) "active" "heap w this = None"
    | (direct) "active" "heap w this \<noteq> None" "activeContextId w \<noteq> 0"
    | (failed) "active" "heap w this \<noteq> None" "activeContextId w = 0" "activeContextId ?w1 = 0"
    | (backup) "active" "heap w this \<noteq> None" "activeContextId w = 0" "activeContextId ?w1 \<noteq> 0"
    by blast
  then show ?thesis
  proof cases
    case off
    then have "calls (snd (activate this active d w)) = calls w @ []"
      by (simp add: activate_def)
    with nil show ?thesis by blast
  next
    case gone
    then have "calls (snd (activate this active d w)) = calls w @ []"
      by (simp add: activate_def)
    with nil show ?thesis by blast
  next
    case direct
    then have "snd (activate this active d w) = snd (lookupOrCreate this d w)"
      by (auto simp: activate_def)
    then show ?thesis using lookupOrCreate_calls [of this d w] by simp
  next
    case failed
    then have "snd (activate this active d w) = ?w1"
      by (auto simp: activate_def Let_def)
    then have "calls (snd (activate this active d w)) = calls w @ e"
      using e(1) by simp
    moreover have "ownDeletes (activeContextId (snd (activate this active d w))) (e @ [])"
      by (rule pre) (rule nil)
    ultimately show ?thesis by auto
  next
    case backup
    then have eq: "snd (activate this active d w) = snd (lookupOrCreate this d ?w1)"
      by (auto simp: activate_def Let_def)
    obtain ds where ds: "calls (snd (lookupOrCreate this d ?w1)) = calls ?w1 @ ds"
      "ownDeletes (activeContextId ?w1) ds"
      using lookupOrCreate_calls [of this d ?w1] by blast
    have "calls (snd (activate this active d w)) = calls w @ (e @ ds)"
      using eq ds(1) e(1) by simp
    moreover have "ownDeletes (activeContextId (snd (activate this active d w))) (e @ ds)"
      using eq ds(2) by (simp add: pre)
    ultimately show ?thesis by blast
  qed
qed

lemma create_frame [simp]:
  "activeContextId (snd (create es this width height textureId depthBuffer d w)) = activeContextId w"
  "frameBuffers (snd (create es this width height textureId depthBuffer d w)) = frameBuffers w"
  "staleFrameBuffers (snd (create es this width height textureId depthBuffer d w)) = staleFrameBuffers w"
  by (simp_all add: create_def Let_def split: option.splits)

lemma create_calls_explicit:
  "heap w this = Some owner \<Longrightarrow>
   calls (snd (create es this width height textureId depthBuffer d w)) =
     calls w @
     (if depthBuffer then [GenRenderbuffers (activeContextId w) (genRenderbuffer d)] else []) @
     (if (depthBuffer \<and> genRenderbuffer d = 0) \<or> activeContextId w = 0 then []
      else GenFramebuffers (activeContextId w) (genFramebuffer d) #
           (if genFramebuffer d \<noteq> 0 \<and> \<not> framebufferComplete d
            then [DeleteFramebuffers (activeContextId w) (genFramebuffer d)] else []))"
  by (simp add: create_def createFrameBuffer_def Let_def)

lemma create_calls:
  "\<exists>ds. calls (snd (create es this width height textureId depthBuffer d w)) = calls w @ ds \<and>
        ownDeletes (activeContextId w) ds"
proof (cases "heap w this")
  case None
  then have "calls (snd (create es this width height textureId depthBuffer d w)) = calls w @ []"
    by (simp add: create_def)
  moreover have "ownDeletes (activeContextId w) []" by (simp add: ownDeletes_def)
  ultimately show ?thesis by blast
next
  case (Some owner)
  let ?c = "activeContextId w"
  let ?ds = "(if depthBuffer then [GenRenderbuffers ?c (genRenderbuffer d)] else []) @
     (if (depthBuffer \<and> genRenderbuffer d = 0) \<or> ?c = 0 then []
      else GenFramebuffers ?c (genFramebuffer d) #
           (if genFramebuffer d \<noteq> 0 \<and> \<not> framebufferComplete d
            then [DeleteFramebuffers ?c (genFramebuffer d)] else []))"
  have "calls (snd (create es this width height textureId depthBuffer d w)) = calls w @ ?ds"
    by (rule create_calls_explicit [OF Some])
  moreover have "ownDeletes ?c ?ds" by (simp add: ownDeletes_def)
  ultimately show ?thesis by blast
qed

lemma constructor_frame [simp]:
  "activeContextId (constructor this w) = activeContextId w"
  "staleFrameBuffers (constructor this w) = staleFrameBuffers w"
  "calls (constructor this w) = calls w"
  by (simp_all add: constructor_def split: option.splits)

lemma step_calls:
  "\<exists>ds. calls (step es x w) = calls w @ ds \<and>
        (\<forall>k h. DeleteFramebuffers k h \<in> set ds \<longrightarrow>
                 k = activeContextId (step es x w) \<and> (tagged w k h \<or> GenFramebuffers k h \<in> set ds))"
proof (cases x)
  case (Construct a)
  then have "calls (step es x w) = calls w @ []" by simp
  then show ?thesis by fastforce
next
  case (Destroy a)
  show ?thesis
  proof (cases "heap w a")
    case None
    then have "calls (step es x w) = calls w @ []" using Destroy by (simp add: destructor_def)
    then show ?thesis by fastforce
  next
    case (Some owner)
    from destructor_calls [OF Some] obtain hs where
      c: "calls (destructor a w) =
           calls w @
           (if m_depthBuffer owner \<noteq> 0
            then [DeleteRenderbuffers (activeContextId w) (m_depthBuffer owner)] else []) @
           map (DeleteFramebuffers (activeContextId w)) hs @
           (case m_context owner of None \<Rightarrow> [] | Some k \<Rightarrow> [DeleteContext a k])"
      and t: "\<forall>h\<in>set hs. tagged w (activeContextId w) h"
      by blast
    let ?ds = "(if m_depthBuffer owner \<noteq> 0
            then [DeleteRenderbuffers (activeContextId w) (m_depthBuffer owner)] else []) @
           map (DeleteFramebuffers (activeContextId w)) hs @
           (case m_context owner of None \<Rightarrow> [] | Some k \<Rightarrow> [DeleteContext a k])"
    have "\<forall>k h. DeleteFramebuffers k h \<in> set ?ds \<longrightarrow> k = activeContextId w \<and> tagged w k h"
      using t by (auto split: option.splits)
    then show ?thesis using c Destroy by (auto simp: destructor_frame simp del: set_append)
  qed
next
  case (Create a width height textureId depthBuffer d)
  then show ?thesis
    using create_calls [of es a width height textureId depthBuffer d w]
    by (auto simp: ownDeletes_def)
next
  case (Activate a active d)
  then show ?thesis
    using activate_calls [of a active d w] by (auto simp: ownDeletes_def)
next
  case ContextDestroyed
  then show ?thesis
    using callback_calls_sound [of w] by auto
next
  case (SetActiveContext c)
  then have "calls (step es x w) = calls w @ []" by simp
  then show ?thesis by fastforce
qed

lemma liveDeletes_set:
  "set (liveDeletes c ps hp) =
     {h. \<exists>p\<in>set ps. \<exists>owner. hp p = Some owner \<and> map_of (m_frameBuffers owner) c = Some h}"
proof (induction ps)
  case Nil
  show ?case by (simp add: liveDeletes_def)
next
  case (Cons p ps)
  have "liveDeletes c (p # ps) hp = liveDeletes c [p] hp @ liveDeletes c ps hp"
    by (simp add: liveDeletes_def)
  moreover have "set (liveDeletes c [p] hp) =
      {h. \<exists>owner. hp p = Some owner \<and> map_of (m_frameBuffers owner) c = Some h}"
  proof (cases "hp p")
    case None
    then show ?thesis by (simp add: liveDeletes_def)
  next
    case (Some owner)
    then show ?thesis
      by (cases "map_of (m_frameBuffers owner) c") (simp_all add: liveDeletes_def)
  qed
  ultimately show ?case using Cons.IH by auto
qed

lemma callback_calls_exact:
  "distinct (frameBuffers w) \<Longrightarrow>
   calls (contextDestroyCallback w) =
     calls w @ map (DeleteFramebuffers (activeContextId w))
                 (liveDeletes (activeContextId w) (frameBuffers w) (heap w) @
                  staleDeletes (activeContextId w) (staleFrameBuffers w))"
  by (simp add: contextDestroyCallback_def Let_def destroyStale_calls destroyActive_calls)

section \<open>Which handles the callback destroys\<close>

text \<open>
  C4: at a context teardown the callback destroys exactly the handles tagged with the
  identifier of the context that is current, those in the maps of live owners and those in
  the stale set, and every deletion it issues is one of these.
\<close>

theorem callback_destroys_exactly_tagged:
  assumes "registry_ok w"
  shows "calls (contextDestroyCallback w) = calls w @ issued w (contextDestroyCallback w) \<and>
         set (issued w (contextDestroyCallback w)) =
           {DeleteFramebuffers (activeContextId w) h | h. tagged w (activeContextId w) h}"
proof -
  let ?c = "activeContextId w"
  let ?hs = "liveDeletes ?c (frameBuffers w) (heap w) @ staleDeletes ?c (staleFrameBuffers w)"
  from assms have d: "distinct (frameBuffers w)"
    and live: "set (frameBuffers w) = dom (heap w)"
    and keys: "\<And>p owner. heap w p = Some owner \<Longrightarrow> distinct (map fst (m_frameBuffers owner))"
    by (auto simp: registry_ok_def ptr_sorted_distinct key_sorted_distinct)
  have c: "calls (contextDestroyCallback w) = calls w @ map (DeleteFramebuffers ?c) ?hs"
    by (rule callback_calls_exact [OF d])
  then have i: "issued w (contextDestroyCallback w) = map (DeleteFramebuffers ?c) ?hs"
    by (rule issued_append)
  have "set ?hs = {h. tagged w ?c h}"
  proof (rule set_eqI)
    fix h
    have "(\<exists>p\<in>set (frameBuffers w). \<exists>owner. heap w p = Some owner \<and>
             map_of (m_frameBuffers owner) ?c = Some h) =
          (\<exists>p owner. heap w p = Some owner \<and> (?c, h) \<in> set (m_frameBuffers owner))"
    proof -
      have mem: "(map_of (m_frameBuffers owner) ?c = Some h) = ((?c, h) \<in> set (m_frameBuffers owner))"
        if "heap w p = Some owner" for p owner
        using keys [OF that] by (rule map_of_is_member)
      have reg: "(p \<in> set (frameBuffers w)) = (\<exists>owner. heap w p = Some owner)" for p
        using live by (auto simp: dom_def)
      show ?thesis using mem reg by blast
    qed
    then show "(h \<in> set ?hs) = (h \<in> {h. tagged w ?c h})"
      by (simp add: liveDeletes_set staleDeletes_set tagged_def disj_commute)
  qed
  then have "set (map (DeleteFramebuffers ?c) ?hs) = {DeleteFramebuffers ?c h | h. tagged w ?c h}"
    by (auto simp del: set_append map_append)
  with c i show ?thesis by simp
qed

theorem callback_destroys_exactly_tagged_witness:
  "registry_ok mixedWorld \<and>
   calls (contextDestroyCallback mixedWorld) =
     calls mixedWorld @ [DeleteFramebuffers 1 6, DeleteFramebuffers 1 5] \<and>
   set (issued mixedWorld (contextDestroyCallback mixedWorld)) =
     {DeleteFramebuffers (activeContextId mixedWorld) h | h.
        tagged mixedWorld (activeContextId mixedWorld) h}"
proof -
  have ok: "registry_ok mixedWorld"
    by (simp add: registry_ok_def mixedWorld_def eval_defs)
  have ev: "calls (contextDestroyCallback mixedWorld) =
     calls mixedWorld @ [DeleteFramebuffers 1 6, DeleteFramebuffers 1 5]"
    by (simp add: mixedWorld_def eval_defs)
  show ?thesis
    using ok ev callback_destroys_exactly_tagged [OF ok] by simp
qed

section \<open>The context under which a handle is destroyed\<close>

text \<open>
  C6: every framebuffer deletion issued by an operation is issued while the context the
  handle is tagged with is the active one: the handle was stored under that context's
  identifier in a live map or in the stale set, or the same operation had just generated it
  under that context. In the callback the deleted entries are exactly entries whose key is
  the active context identifier.
\<close>

theorem deletion_only_under_tagged_context:
  assumes "DeleteFramebuffers k h \<in> set (issued w (step es x w))"
  shows "k = activeContextId (step es x w) \<and>
         (tagged w k h \<or> GenFramebuffers k h \<in> set (issued w (step es x w))) \<and>
         (x = ContextDestroyed \<longrightarrow> k = activeContextId w \<and> tagged w k h)"
proof -
  obtain ds where c: "calls (step es x w) = calls w @ ds"
    and d: "\<forall>k h. DeleteFramebuffers k h \<in> set ds \<longrightarrow>
                 k = activeContextId (step es x w) \<and> (tagged w k h \<or> GenFramebuffers k h \<in> set ds)"
    using step_calls [of es x w] by blast
  from c have i: "issued w (step es x w) = ds" by (rule issued_append)
  have general: "k = activeContextId (step es x w) \<and>
         (tagged w k h \<or> GenFramebuffers k h \<in> set (issued w (step es x w)))"
    using assms d i by simp
  have callback: "k = activeContextId w \<and> tagged w k h" if x: "x = ContextDestroyed"
  proof -
    obtain hs where hs: "calls (contextDestroyCallback w) =
          calls w @ map (DeleteFramebuffers (activeContextId w)) hs"
      and t: "\<forall>h\<in>set hs. tagged w (activeContextId w) h"
      using callback_calls_sound [of w] by blast
    from hs x have "issued w (step es x w) = map (DeleteFramebuffers (activeContextId w)) hs"
      by (simp add: issued_append)
    with assms t show ?thesis by auto
  qed
  from general callback show ?thesis by blast
qed

theorem deletion_only_under_tagged_context_witness:
  "DeleteFramebuffers 1 5 \<in> set (issued mixedWorld (step False ContextDestroyed mixedWorld)) \<and>
   activeContextId (step False ContextDestroyed mixedWorld) = 1 \<and>
   activeContextId mixedWorld = 1 \<and> tagged mixedWorld 1 5"
proof -
  have h: "DeleteFramebuffers 1 5 \<in> set (issued mixedWorld (step False ContextDestroyed mixedWorld))"
    by (simp add: issued_def mixedWorld_def eval_defs)
  show ?thesis
    using h deletion_only_under_tagged_context [OF h] by simp
qed

section \<open>Runs\<close>

lemma run_Nil [simp]: "run es [] w = w"
  by (simp add: run_def)

lemma run_Cons [simp]: "run es (x # ops) w = run es ops (step es x w)"
  by (simp add: run_def)





section \<open>Destroying an owner\<close>




section \<open>The shape of the registry is kept by every operation\<close>





lemma createFrameBuffer_heap:
  "heap (snd (createFrameBuffer this d w)) =
     (case heap w this of
        None \<Rightarrow> heap w
      | Some owner \<Rightarrow>
          if genFramebuffer d \<noteq> 0 \<and> framebufferComplete d
          then (heap w)(this \<mapsto> owner\<lparr>m_frameBuffers :=
                  set_insert key_less (activeContextId w, genFramebuffer d) (m_frameBuffers owner)\<rparr>)
          else heap w)"
  by (simp add: createFrameBuffer_def Let_def split: option.splits)















section \<open>One handle per owner and context\<close>


lemma createFrameBuffer_success:
  assumes "createFrameBuffer this d w = (True, w1)"
    and "heap w this = Some owner" and "map_of (m_frameBuffers owner) (activeContextId w) = None"
  shows "activeContextId w1 = activeContextId w \<and>
         (\<exists>owner1. heap w1 this = Some owner1 \<and>
            map_of (m_frameBuffers owner1) (activeContextId w) = Some (genFramebuffer d)) \<and>
         readBinding w1 (activeContextId w) = genFramebuffer d \<and>
         drawBinding w1 (activeContextId w) = genFramebuffer d \<and>
         calls w1 = calls w @ [GenFramebuffers (activeContextId w) (genFramebuffer d)]"
proof -
  from assms(1,2) have ok: "genFramebuffer d \<noteq> 0" "framebufferComplete d"
    by (auto simp: createFrameBuffer_def Let_def split: if_splits)
  let ?c = "activeContextId w" and ?f = "genFramebuffer d"
  let ?w2 = "glBindFramebuffer GL_FRAMEBUFFER ?f (issue (GenFramebuffers ?c ?f) w)"
  have w1: "w1 = ?w2\<lparr>heap := (heap ?w2)(this \<mapsto>
               owner\<lparr>m_frameBuffers := set_insert key_less (?c, ?f) (m_frameBuffers owner)\<rparr>)\<rparr>"
    using assms(1,2) ok by (simp add: createFrameBuffer_def Let_def)
  have "map_of (set_insert key_less (?c, ?f) (m_frameBuffers owner)) ?c = Some ?f"
    using assms(3) by (simp add: key_insert_map_of)
  then show ?thesis unfolding w1 by (simp add: glBindFramebuffer_def issue_def Let_def)
qed




section \<open>An incomplete framebuffer\<close>

lemma createFrameBuffer_incomplete:
  assumes "heap w this = Some owner" and "genFramebuffer d \<noteq> 0" and "\<not> framebufferComplete d"
  shows "createFrameBuffer this d w =
           (False, glDeleteFramebuffers (genFramebuffer d)
                     (glBindFramebuffer GL_FRAMEBUFFER 0
                        (glBindFramebuffer GL_FRAMEBUFFER (genFramebuffer d)
                           (issue (GenFramebuffers (activeContextId w) (genFramebuffer d)) w))))"
  using assms by (simp add: createFrameBuffer_def Let_def)

lemma createFrameBuffer_complete:
  assumes "heap w this = Some owner" and "genFramebuffer d \<noteq> 0" and "framebufferComplete d"
  shows "fst (createFrameBuffer this d w)"
  using assms by (simp add: createFrameBuffer_def Let_def)

lemma activate_is_create:
  assumes "heap w this = Some owner" and "activeContextId w \<noteq> 0"
    and "map_of (m_frameBuffers owner) (activeContextId w) = None"
  shows "activate this True d w = createFrameBuffer this d w"
  using assms by (simp add: activate_def lookupOrCreate_def)

text \<open>
  C8: when the driver reports the framebuffer incomplete, \<open>createFrameBuffer\<close> returns
  \<open>false\<close> after deleting the framebuffer it had generated; the owner, its map and the
  registry are as before. An activation that finds no entry for the active context is such
  an attempt, and a later activation under the same context, answered by a driver that
  reports completeness, succeeds and stores the new handle.
\<close>

theorem incomplete_framebuffer_is_deleted:
  assumes "heap w this = Some owner" and "genFramebuffer d \<noteq> 0" and "\<not> framebufferComplete d"
  shows "\<not> fst (createFrameBuffer this d w) \<and>
         calls (snd (createFrameBuffer this d w)) =
           calls w @ [GenFramebuffers (activeContextId w) (genFramebuffer d),
                      DeleteFramebuffers (activeContextId w) (genFramebuffer d)] \<and>
         heap (snd (createFrameBuffer this d w)) = heap w \<and>
         frameBuffers (snd (createFrameBuffer this d w)) = frameBuffers w \<and>
         staleFrameBuffers (snd (createFrameBuffer this d w)) = staleFrameBuffers w \<and>
         activeContextId (snd (createFrameBuffer this d w)) = activeContextId w \<and>
         (activeContextId w \<noteq> 0 \<and> map_of (m_frameBuffers owner) (activeContextId w) = None \<longrightarrow>
            activate this True d w = createFrameBuffer this d w \<and>
            (genFramebuffer d' \<noteq> 0 \<and> framebufferComplete d' \<longrightarrow>
               fst (activate this True d' (snd (createFrameBuffer this d w))) \<and>
               (\<exists>owner1. heap (snd (activate this True d' (snd (createFrameBuffer this d w)))) this =
                            Some owner1 \<and>
                          map_of (m_frameBuffers owner1) (activeContextId w) =
                            Some (genFramebuffer d'))))"
proof -
  let ?w' = "snd (createFrameBuffer this d w)"
  note eq = createFrameBuffer_incomplete [OF assms]
  have failed: "\<not> fst (createFrameBuffer this d w)" by (simp add: eq)
  have c: "calls ?w' = calls w @ [GenFramebuffers (activeContextId w) (genFramebuffer d),
                      DeleteFramebuffers (activeContextId w) (genFramebuffer d)]"
    by (simp add: eq)
  have h: "heap ?w' = heap w" by (simp add: eq)
  have a: "activeContextId ?w' = activeContextId w" by simp
  have retry: "fst (activate this True d' ?w') \<and>
               (\<exists>owner1. heap (snd (activate this True d' ?w')) this = Some owner1 \<and>
                          map_of (m_frameBuffers owner1) (activeContextId w) = Some (genFramebuffer d'))"
    if ctx: "activeContextId w \<noteq> 0" and none: "map_of (m_frameBuffers owner) (activeContextId w) = None"
      and good: "genFramebuffer d' \<noteq> 0" "framebufferComplete d'"
  proof -
    have o': "heap ?w' this = Some owner" using h assms(1) by simp
    have ctx': "activeContextId ?w' \<noteq> 0" using ctx a by simp
    have none': "map_of (m_frameBuffers owner) (activeContextId ?w') = None" using none a by simp
    have act: "activate this True d' ?w' = createFrameBuffer this d' ?w'"
      by (rule activate_is_create [OF o' ctx' none'])
    have ok: "fst (createFrameBuffer this d' ?w')"
      by (rule createFrameBuffer_complete [OF o' good])
    then have "createFrameBuffer this d' ?w' = (True, snd (createFrameBuffer this d' ?w'))"
      by (cases "createFrameBuffer this d' ?w'") simp
    from createFrameBuffer_success [OF this o' none']
    have "\<exists>owner1. heap (snd (createFrameBuffer this d' ?w')) this = Some owner1 \<and>
            map_of (m_frameBuffers owner1) (activeContextId w) = Some (genFramebuffer d')"
      using a by simp
    with ok act show ?thesis by simp
  qed
  have same: "activate this True d w = createFrameBuffer this d w"
    if "activeContextId w \<noteq> 0" and "map_of (m_frameBuffers owner) (activeContextId w) = None"
    by (rule activate_is_create [OF assms(1) that])
  from failed c h a retry same show ?thesis by simp
qed

theorem incomplete_framebuffer_is_deleted_witness:
  "heap oneOwner 1 =
     Some \<lparr>m_context = None, m_depthBuffer = 0, m_textureId = 0, m_frameBuffers = []\<rparr> \<and>
   genFramebuffer (driverRejecting 5) \<noteq> 0 \<and> \<not> framebufferComplete (driverRejecting 5) \<and>
   activeContextId oneOwner \<noteq> 0 \<and>
   \<not> fst (activate 1 True (driverRejecting 5) oneOwner) \<and>
   calls (snd (createFrameBuffer 1 (driverRejecting 5) oneOwner)) =
     [GenFramebuffers 1 5, DeleteFramebuffers 1 5] \<and>
   fst (activate 1 True (driverGiving 6) (snd (createFrameBuffer 1 (driverRejecting 5) oneOwner)))"
proof -
  let ?owner = "\<lparr>m_context = None, m_depthBuffer = 0, m_textureId = 0, m_frameBuffers = []\<rparr>"
  have h: "heap oneOwner 1 = Some ?owner" by (simp add: oneOwner_def eval_defs)
  have g: "genFramebuffer (driverRejecting 5) \<noteq> 0" by (simp add: driverRejecting_def)
  have i: "\<not> framebufferComplete (driverRejecting 5)" by (simp add: driverRejecting_def)
  have a: "activeContextId oneOwner \<noteq> 0" by (simp add: oneOwner_def eval_defs)
  have a1: "activeContextId oneOwner = 1" by (simp add: oneOwner_def eval_defs)
  have c0: "calls oneOwner = []" by (simp add: oneOwner_def eval_defs)
  have m: "map_of (m_frameBuffers ?owner) (activeContextId oneOwner) = None" by simp
  have good: "genFramebuffer (driverGiving 6) \<noteq> 0 \<and> framebufferComplete (driverGiving 6)"
    by (simp add: driverGiving_def)
  note t = incomplete_framebuffer_is_deleted [OF h g i, of "driverGiving 6"]
  from t a m good
  have "\<not> fst (activate 1 True (driverRejecting 5) oneOwner) \<and>
        fst (activate 1 True (driverGiving 6) (snd (createFrameBuffer 1 (driverRejecting 5) oneOwner)))"
    by simp
  moreover from t a1 c0
  have "calls (snd (createFrameBuffer 1 (driverRejecting 5) oneOwner)) =
          [GenFramebuffers 1 5, DeleteFramebuffers 1 5]"
    by (simp add: driverRejecting_def)
  ultimately show ?thesis using h g i a by blast
qed

section \<open>Framebuffer bindings across creation\<close>

text \<open>
  C7 (the framebuffer bindings active before \<open>create\<close> are restored on every outcome, on
  the failure paths as on success). The code with framebuffer \<open>3\<close> bound for reading and
  drawing under context \<open>1\<close>: when the driver reports the new framebuffer incomplete,
  \<open>create\<close> returns \<open>false\<close> and framebuffer \<open>0\<close> is left bound. The bindings saved at
  the start of \<open>create\<close> are restored on the success path only, where the same call with
  a complete framebuffer returns \<open>true\<close> with \<open>3\<close> bound again.
\<close>

theorem create_incomplete_leaves_zero_bound:
  "\<not> fst (create False 1 64 64 7 False (driverRejecting 5) boundWorld) \<and>
   readBinding boundWorld 1 = 3 \<and> drawBinding boundWorld 1 = 3 \<and>
   readBinding (snd (create False 1 64 64 7 False (driverRejecting 5) boundWorld)) 1 = 0 \<and>
   drawBinding (snd (create False 1 64 64 7 False (driverRejecting 5) boundWorld)) 1 = 0 \<and>
   fst (create False 1 64 64 7 False (driverGiving 5) boundWorld) \<and>
   readBinding (snd (create False 1 64 64 7 False (driverGiving 5) boundWorld)) 1 = 3 \<and>
   drawBinding (snd (create False 1 64 64 7 False (driverGiving 5) boundWorld)) 1 = 3"
  by (simp add: boundWorld_def driverRejecting_def eval_defs)

section \<open>The backup context\<close>

lemma backupCreations_append:
  "calls w' = calls w @ ds \<Longrightarrow>
   backupCreations a w' = backupCreations a w + length (filter (isNewContextOf a) ds)"
  by (simp add: backupCreations_def)

lemma backupCreations_createFrameBuffer:
  "backupCreations a (snd (createFrameBuffer this d w)) = backupCreations a w"
  by (simp add: backupCreations_def createFrameBuffer_def Let_def split: option.splits)

lemma backupContext_createFrameBuffer:
  "backupContext (snd (createFrameBuffer this d w)) a = backupContext w a"
  by (simp add: backupContext_def createFrameBuffer_heap split: option.splits)

lemma backupCreations_lookupOrCreate:
  "backupCreations a (snd (lookupOrCreate this d w)) = backupCreations a w"
proof (cases "\<exists>owner h. heap w this = Some owner \<and> map_of (m_frameBuffers owner) (activeContextId w) = Some h")
  case True
  then show ?thesis by (auto simp: lookupOrCreate_def backupCreations_def)
next
  case False
  then have "snd (lookupOrCreate this d w) = snd (createFrameBuffer this d w)"
    by (auto simp: lookupOrCreate_def createFrameBuffer_def split: option.splits)
  then show ?thesis by (simp add: backupCreations_createFrameBuffer)
qed

lemma backupContext_lookupOrCreate:
  "backupContext (snd (lookupOrCreate this d w)) a = backupContext w a"
proof (cases "\<exists>owner h. heap w this = Some owner \<and> map_of (m_frameBuffers owner) (activeContextId w) = Some h")
  case True
  then show ?thesis by (auto simp: lookupOrCreate_def backupContext_def)
next
  case False
  then have "snd (lookupOrCreate this d w) = snd (createFrameBuffer this d w)"
    by (auto simp: lookupOrCreate_def createFrameBuffer_def split: option.splits)
  then show ?thesis by (simp add: backupContext_createFrameBuffer)
qed

lemma backupCreations_activateBackupContext:
  "backupCreations a (activateBackupContext this d w) =
     backupCreations a w +
     (if a = this \<and> heap w this \<noteq> None \<and> backupContext w this = None then 1 else 0)"
  by (auto simp: backupCreations_def backupContext_def activateBackupContext_calls
           split: option.splits)

lemma backupContext_activateBackupContext:
  "backupContext (activateBackupContext this d w) a =
     (if a = this \<and> heap w this \<noteq> None \<and> backupContext w this = None
      then Some (newContextId d) else backupContext w a)"
  by (auto simp: backupContext_def activateBackupContext_def Let_def split: option.splits)

lemma activate_without_context:
  assumes "heap w this = Some owner" and "activeContextId w = 0"
  shows "activate this True d w =
           (if activeContextId (activateBackupContext this d w) = 0
            then (False, activateBackupContext this d w)
            else lookupOrCreate this d (activateBackupContext this d w))"
  using assms by (simp add: activate_def Let_def)

lemma activate_backup:
  assumes "heap w this = Some owner" and "activeContextId w = 0"
  shows "backupCreations a (snd (activate this True d w)) =
           backupCreations a w + (if a = this \<and> m_context owner = None then 1 else 0)"
    and "backupContext (snd (activate this True d w)) a =
           (if a = this \<and> m_context owner = None then Some (newContextId d) else backupContext w a)"
proof -
  let ?w1 = "activateBackupContext this d w"
  have live: "heap w this \<noteq> None" using assms(1) by simp
  have bx: "backupContext w this = m_context owner" using assms(1) by (simp add: backupContext_def)
  have c1: "backupCreations a ?w1 =
      backupCreations a w + (if a = this \<and> m_context owner = None then 1 else 0)"
    using live bx by (simp add: backupCreations_activateBackupContext)
  have x1: "backupContext ?w1 a =
      (if a = this \<and> m_context owner = None then Some (newContextId d) else backupContext w a)"
    using live bx by (simp add: backupContext_activateBackupContext)
  have "snd (activate this True d w) = ?w1 \<or>
        snd (activate this True d w) = snd (lookupOrCreate this d ?w1)"
    by (simp add: activate_without_context [OF assms])
  then have "backupCreations a (snd (activate this True d w)) = backupCreations a ?w1 \<and>
             backupContext (snd (activate this True d w)) a = backupContext ?w1 a"
    by (auto simp: backupCreations_lookupOrCreate backupContext_lookupOrCreate)
  with c1 x1 show
    "backupCreations a (snd (activate this True d w)) =
           backupCreations a w + (if a = this \<and> m_context owner = None then 1 else 0)"
    "backupContext (snd (activate this True d w)) a =
           (if a = this \<and> m_context owner = None then Some (newContextId d) else backupContext w a)"
    by simp_all
qed

lemma backup_bind:
  "backupCreations a (glBindFramebuffer t h w) = backupCreations a w"
  "backupContext (glBindFramebuffer t h w) a = backupContext w a"
  by (simp_all add: backupCreations_def backupContext_def)

lemma activate_with_context:
  assumes "activeContextId w \<noteq> 0 \<or> \<not> active \<or> heap w this = None"
  shows "backupCreations a (snd (activate this active d w)) = backupCreations a w \<and>
         backupContext (snd (activate this active d w)) a = backupContext w a"
proof -
  have "snd (activate this active d w) = glBindFramebuffer GL_FRAMEBUFFER 0 w \<or>
        snd (activate this active d w) = w \<or>
        snd (activate this active d w) = snd (lookupOrCreate this d w)"
    using assms by (auto simp: activate_def split: option.splits)
  then show ?thesis
    by (auto simp: backup_bind backupCreations_lookupOrCreate backupContext_lookupOrCreate)
qed

lemma backupContext_heap: "heap w' = heap w \<Longrightarrow> backupContext w' a = backupContext w a"
  by (simp add: backupContext_def)

lemma destroyActive_backupContext:
  "backupContext (destroyActive c ps w) a = backupContext w a"
proof (induction ps arbitrary: w)
  case Nil
  show ?case by simp
next
  case (Cons p ps)
  show ?case
  proof (cases "heap w p")
    case None
    then show ?thesis using Cons.IH [of w] by simp
  next
    case (Some owner)
    show ?thesis
    proof (cases "scanOwnerMap c (m_frameBuffers owner)")
      case None
      then show ?thesis using Some Cons.IH [of w] by simp
    next
      case scan: (Some r)
      obtain h rest where r: "r = (h, rest)" by (cases r)
      let ?w' = "(glDeleteFramebuffers h w)\<lparr>heap := (heap w)(p \<mapsto> owner\<lparr>m_frameBuffers := rest\<rparr>)\<rparr>"
      have "backupContext (destroyActive c (p # ps) w) a = backupContext ?w' a"
        using Some scan r Cons.IH [of ?w'] by simp
      also have "\<dots> = backupContext w a"
        using Some by (simp add: backupContext_def)
      finally show ?thesis .
    qed
  qed
qed

lemma no_backup_in_deletes: "filter (isNewContextOf a) (map (DeleteFramebuffers c) hs) = []"
  by (induction hs) simp_all

lemma callback_backup:
  "backupCreations a (contextDestroyCallback w) = backupCreations a w"
  "backupContext (contextDestroyCallback w) a = backupContext w a"
proof -
  obtain hs where "calls (contextDestroyCallback w) =
      calls w @ map (DeleteFramebuffers (activeContextId w)) hs"
    using callback_calls_sound [of w] by blast
  then show "backupCreations a (contextDestroyCallback w) = backupCreations a w"
    by (simp add: backupCreations_append no_backup_in_deletes)
  have "backupContext (contextDestroyCallback w) a =
        backupContext (destroyActive (activeContextId w) (frameBuffers w) w) a"
    by (rule backupContext_heap) (rule callback_heap)
  then show "backupContext (contextDestroyCallback w) a = backupContext w a"
    by (simp add: destroyActive_backupContext)
qed

lemma destructor_backup:
  assumes "a \<noteq> this"
  shows "backupCreations a (destructor this w) = backupCreations a w"
    and "backupContext (destructor this w) a = backupContext w a"
proof -
  show "backupCreations a (destructor this w) = backupCreations a w"
  proof (cases "heap w this")
    case None
    then show ?thesis by (simp add: destructor_def)
  next
    case (Some owner)
    from destructor_calls [OF Some] obtain hs where
      "calls (destructor this w) =
           calls w @
           (if m_depthBuffer owner \<noteq> 0
            then [DeleteRenderbuffers (activeContextId w) (m_depthBuffer owner)] else []) @
           map (DeleteFramebuffers (activeContextId w)) hs @
           (case m_context owner of None \<Rightarrow> [] | Some k \<Rightarrow> [DeleteContext this k])"
      by blast
    then show ?thesis
      by (simp add: backupCreations_append no_backup_in_deletes split: option.splits)
  qed
  show "backupContext (destructor this w) a = backupContext w a"
  proof (cases "heap w this")
    case None
    then show ?thesis by (simp add: destructor_def)
  next
    case (Some owner)
    let ?w1 = "w\<lparr>frameBuffers := set_erase this (frameBuffers w)\<rparr>"
    let ?w2 = "if m_depthBuffer owner \<noteq> 0
               then issue (DeleteRenderbuffers (activeContextId ?w1) (m_depthBuffer owner)) ?w1 else ?w1"
    let ?w3 = "moveToStale (m_frameBuffers owner) ?w2"
    have e: "heap (destructor this w) = (heap (contextDestroyCallback ?w3))(this := None)"
      using Some by (simp add: destructor_def Let_def split: option.splits)
    have "backupContext (destructor this w) a = backupContext (contextDestroyCallback ?w3) a"
      using assms by (simp add: backupContext_def e)
    also have "\<dots> = backupContext ?w3 a" by (rule callback_backup)
    also have "\<dots> = backupContext w a" by (rule backupContext_heap) simp
    finally show ?thesis .
  qed
qed

lemma constructor_backup:
  "backupCreations a (constructor this w) = backupCreations a w"
  "backupContext (constructor this w) a = backupContext w a"
  by (auto simp: backupCreations_def backupContext_def constructor_def split: option.splits)

lemma create_backup:
  "backupCreations a (snd (create es this width height textureId depthBuffer d w)) =
     backupCreations a w"
  "backupContext (snd (create es this width height textureId depthBuffer d w)) a =
     backupContext w a"
proof -
  show "backupCreations a (snd (create es this width height textureId depthBuffer d w)) =
     backupCreations a w"
  proof (cases "heap w this")
    case None
    then show ?thesis by (simp add: create_def)
  next
    case (Some owner)
    show ?thesis
      by (simp add: backupCreations_append [OF create_calls_explicit [OF Some]])
  qed
  show "backupContext (snd (create es this width height textureId depthBuffer d w)) a =
     backupContext w a"
  proof (cases "heap w this")
    case None
    then show ?thesis by (simp add: create_def)
  next
    case (Some owner)
    let ?o1 = "if depthBuffer then owner\<lparr>m_depthBuffer := genRenderbuffer d\<rparr> else owner"
    let ?w1 = "if depthBuffer
               then (issue (GenRenderbuffers (activeContextId w) (genRenderbuffer d)) w)
                      \<lparr>heap := (heap w)(this \<mapsto> ?o1)\<rparr>
               else w"
    let ?w2 = "?w1\<lparr>heap := (heap ?w1)(this \<mapsto> ?o1\<lparr>m_textureId := textureId\<rparr>)\<rparr>"
    let ?r = "createFrameBuffer this d ?w2"
    have b1: "backupContext ?w1 a = backupContext w a"
      using Some by (simp add: backupContext_def)
    have b2: "backupContext ?w2 a = backupContext w a"
      using Some by (simp add: backupContext_def)
    have br: "backupContext (snd ?r) a = backupContext w a"
      using b2 by (simp only: backupContext_createFrameBuffer)
    consider (depth) "depthBuffer" "genRenderbuffer d = 0"
      | (nocontext) "\<not> (depthBuffer \<and> genRenderbuffer d = 0)" "activeContextId w = 0"
      | (created) "\<not> (depthBuffer \<and> genRenderbuffer d = 0)" "activeContextId w \<noteq> 0" "fst ?r"
      | (failed) "\<not> (depthBuffer \<and> genRenderbuffer d = 0)" "activeContextId w \<noteq> 0" "\<not> fst ?r"
      by blast
    then show ?thesis
    proof cases
      case depth
      then have "snd (create es this width height textureId depthBuffer d w) = ?w1"
        using Some by (simp add: create_def Let_def)
      then show ?thesis using b1 by simp
    next
      case nocontext
      then have "snd (create es this width height textureId depthBuffer d w) = ?w2"
        using Some by (auto simp: create_def Let_def)
      then show ?thesis using b2 by simp
    next
      case created
      let ?c = "activeContextId ?w2"
      let ?rd = "if es then drawBinding ?w2 ?c else readBinding ?w2 ?c"
      have "snd (create es this width height textureId depthBuffer d w) =
              (if es then glBindFramebuffer GL_FRAMEBUFFER ?rd (snd ?r)
               else glBindFramebuffer GL_DRAW_FRAMEBUFFER (drawBinding ?w2 ?c)
                      (glBindFramebuffer GL_READ_FRAMEBUFFER ?rd (snd ?r)))"
        using Some created by (auto simp: create_def Let_def)
      then show ?thesis using br by (simp add: backup_bind)
    next
      case failed
      then have "snd (create es this width height textureId depthBuffer d w) = snd ?r"
        using Some by (auto simp: create_def Let_def)
      then show ?thesis using br by simp
    qed
  qed
qed

lemma step_backup:
  assumes "x \<noteq> Destroy a"
  shows "backupCreations a (step es x w) + (if backupContext (step es x w) a = None then 1 else 0)
           \<le> backupCreations a w + (if backupContext w a = None then 1 else 0)"
proof (cases x)
  case (Construct b)
  then show ?thesis by (simp add: constructor_backup)
next
  case (Destroy b)
  with assms have "a \<noteq> b" by simp
  then show ?thesis using Destroy by (simp add: destructor_backup)
next
  case (Create b width height textureId depthBuffer d)
  then show ?thesis by (simp add: create_backup)
next
  case (Activate b active d)
  show ?thesis
  proof (cases "active \<and> activeContextId w = 0 \<and> heap w b \<noteq> None")
    case True
    then obtain owner where o: "heap w b = Some owner" and z: "activeContextId w = 0"
      and act: "active" by auto
    have bx: "backupContext w b = m_context owner" using o by (simp add: backupContext_def)
    show ?thesis
      using Activate act bx activate_backup [OF o z, where a = a and d = d] by auto
  next
    case False
    then have "activeContextId w \<noteq> 0 \<or> \<not> active \<or> heap w b = None" by blast
    from activate_with_context [OF this, where a = a and d = d] show ?thesis using Activate by simp
  qed
next
  case ContextDestroyed
  then show ?thesis by (simp add: callback_backup)
next
  case (SetActiveContext c)
  then show ?thesis by (simp add: backupCreations_def backupContext_def)
qed

lemma run_backup:
  "Destroy a \<notin> set ops \<Longrightarrow>
   backupCreations a (run es ops w) + (if backupContext (run es ops w) a = None then 1 else 0)
     \<le> backupCreations a w + (if backupContext w a = None then 1 else 0)"
proof (induction ops arbitrary: w)
  case Nil
  show ?case by simp
next
  case (Cons x ops)
  then have x: "x \<noteq> Destroy a" and rest: "Destroy a \<notin> set ops" by auto
  have "backupCreations a (run es (x # ops) w) +
          (if backupContext (run es (x # ops) w) a = None then 1 else 0)
        \<le> backupCreations a (step es x w) + (if backupContext (step es x w) a = None then 1 else 0)"
    using Cons.IH [OF rest, of "step es x w"] by simp
  also have "\<dots> \<le> backupCreations a w + (if backupContext w a = None then 1 else 0)"
    by (rule step_backup [OF x])
  finally show ?case .
qed

lemma activateBackupContext_result:
  assumes "heap w this = Some owner"
  shows "activeContextId (activateBackupContext this d w) =
           (if setActiveOk d
            then (case m_context owner of None \<Rightarrow> newContextId d | Some c \<Rightarrow> c)
            else activeContextId w)"
    and "\<exists>owner1. heap (activateBackupContext this d w) this = Some owner1 \<and>
           m_frameBuffers owner1 = m_frameBuffers owner \<and>
           m_context owner1 =
             Some (case m_context owner of None \<Rightarrow> newContextId d | Some c \<Rightarrow> c)"
  using assms by (simp_all add: activateBackupContext_def Let_def split: option.splits)

lemma lookupOrCreate_complete:
  assumes "heap w this = Some owner" and "genFramebuffer d \<noteq> 0" and "framebufferComplete d"
  shows "fst (lookupOrCreate this d w)"
proof (cases "map_of (m_frameBuffers owner) (activeContextId w)")
  case None
  then have "lookupOrCreate this d w = createFrameBuffer this d w"
    using assms(1) by (simp add: lookupOrCreate_def)
  then show ?thesis using createFrameBuffer_complete [OF assms] by simp
next
  case (Some h)
  then show ?thesis using assms(1) by (simp add: lookupOrCreate_def)
qed

lemma activate_backup_succeeds:
  assumes "heap w this = Some owner" and "activeContextId w = 0" and "setActiveOk d"
    and "(case m_context owner of None \<Rightarrow> newContextId d | Some c \<Rightarrow> c) \<noteq> 0"
    and "genFramebuffer d \<noteq> 0" and "framebufferComplete d"
  shows "fst (activate this True d w)"
proof -
  let ?w1 = "activateBackupContext this d w"
  have a1: "activeContextId ?w1 \<noteq> 0"
    using assms(3,4) by (simp add: activateBackupContext_result(1) [OF assms(1)])
  obtain owner1 where o1: "heap ?w1 this = Some owner1"
    using activateBackupContext_result(2) [OF assms(1)] by blast
  have "activate this True d w = lookupOrCreate this d ?w1"
    using a1 by (simp add: activate_without_context [OF assms(1,2)])
  then show ?thesis using lookupOrCreate_complete [OF o1 assms(5,6)] by simp
qed

text \<open>
  C9: \<open>activate(true)\<close> with no active context builds the owner's backup context when the
  owner has none and from then on makes the one it has current; between the construction
  of an owner and its destruction at most one backup context is built for it. When the
  backup context does not become current the call returns \<open>false\<close>; the owner is left
  live with its map and backup context, and a later call in which the context becomes
  current succeeds.
\<close>

theorem backup_context_created_at_most_once:
  "(heap w this = Some owner \<and> activeContextId w = 0 \<longrightarrow>
      (m_context owner = None \<longrightarrow>
         backupCreations this (snd (activate this True d w)) = backupCreations this w + 1 \<and>
         backupContext (snd (activate this True d w)) this = Some (newContextId d)) \<and>
      (\<forall>c. m_context owner = Some c \<longrightarrow>
         backupCreations this (snd (activate this True d w)) = backupCreations this w \<and>
         backupContext (snd (activate this True d w)) this = Some c \<and>
         (setActiveOk d \<longrightarrow> activeContextId (snd (activate this True d w)) = c)) \<and>
      (\<not> setActiveOk d \<longrightarrow>
         \<not> fst (activate this True d w) \<and>
         activeContextId (snd (activate this True d w)) = 0 \<and>
         frameBuffers (snd (activate this True d w)) = frameBuffers w \<and>
         (\<exists>owner1. heap (snd (activate this True d w)) this = Some owner1 \<and>
            m_frameBuffers owner1 = m_frameBuffers owner \<and>
            (\<forall>d'. setActiveOk d' \<and> genFramebuffer d' \<noteq> 0 \<and> framebufferComplete d' \<and>
                  m_context owner1 \<noteq> Some 0 \<longrightarrow>
                  fst (activate this True d' (snd (activate this True d w))))))) \<and>
   (Destroy this \<notin> set ops \<longrightarrow>
      backupCreations this (run es ops w)
        \<le> backupCreations this w + (if backupContext w this = None then 1 else 0))"
proof -
  let ?w' = "snd (activate this True d w)"
  let ?w1 = "activateBackupContext this d w"
  have first: "backupCreations this ?w' = backupCreations this w + 1 \<and>
               backupContext ?w' this = Some (newContextId d)"
    if "heap w this = Some owner" "activeContextId w = 0" "m_context owner = None"
    using activate_backup [OF that(1,2), where a = this and d = d] that(3) by simp
  have later: "backupCreations this ?w' = backupCreations this w \<and>
               backupContext ?w' this = Some c \<and> (setActiveOk d \<longrightarrow> activeContextId ?w' = c)"
    if o: "heap w this = Some owner" and z: "activeContextId w = 0" and c: "m_context owner = Some c"
    for c
  proof -
    have "backupCreations this ?w' = backupCreations this w \<and> backupContext ?w' this = Some c"
      using activate_backup [OF o z, where a = this and d = d] o c by (simp add: backupContext_def)
    moreover have "activeContextId ?w' = c" if "setActiveOk d"
    proof -
      have a1: "activeContextId ?w1 = c"
        using that c by (simp add: activateBackupContext_result(1) [OF o])
      have "?w' = ?w1 \<or> ?w' = snd (lookupOrCreate this d ?w1)"
        by (simp add: activate_without_context [OF o z])
      then show ?thesis using a1 by auto
    qed
    ultimately show ?thesis by blast
  qed
  have failed: "\<not> fst (activate this True d w) \<and> activeContextId ?w' = 0 \<and>
         frameBuffers ?w' = frameBuffers w \<and>
         (\<exists>owner1. heap ?w' this = Some owner1 \<and>
            m_frameBuffers owner1 = m_frameBuffers owner \<and>
            (\<forall>d'. setActiveOk d' \<and> genFramebuffer d' \<noteq> 0 \<and> framebufferComplete d' \<and>
                  m_context owner1 \<noteq> Some 0 \<longrightarrow>
                  fst (activate this True d' ?w')))"
    if o: "heap w this = Some owner" and z: "activeContextId w = 0" and no: "\<not> setActiveOk d"
  proof -
    have a1: "activeContextId ?w1 = 0"
      using no z by (simp add: activateBackupContext_result(1) [OF o])
    then have eq: "activate this True d w = (False, ?w1)"
      by (simp add: activate_without_context [OF o z])
    obtain owner1 where o1: "heap ?w1 this = Some owner1"
      and m1: "m_frameBuffers owner1 = m_frameBuffers owner"
      and c1: "m_context owner1 =
                 Some (case m_context owner of None \<Rightarrow> newContextId d | Some c \<Rightarrow> c)"
      using activateBackupContext_result(2) [OF o] by blast
    have retry: "fst (activate this True d' ?w1)"
      if "setActiveOk d'" "genFramebuffer d' \<noteq> 0" "framebufferComplete d'"
         "m_context owner1 \<noteq> Some 0" for d'
    proof (rule activate_backup_succeeds [OF o1 a1 that(1) _ that(2,3)])
      show "(case m_context owner1 of None \<Rightarrow> newContextId d' | Some c \<Rightarrow> c) \<noteq> 0"
        using c1 that(4) by auto
    qed
    show ?thesis using eq a1 o1 m1 retry by auto
  qed
  have bound: "backupCreations this (run es ops w)
        \<le> backupCreations this w + (if backupContext w this = None then 1 else 0)"
    if "Destroy this \<notin> set ops"
    using run_backup [OF that, of es w] by simp
  from first later failed bound show ?thesis by blast
qed

theorem backup_context_created_at_most_once_witness:
  "heap noContextOwner 1 =
     Some \<lparr>m_context = None, m_depthBuffer = 0, m_textureId = 0, m_frameBuffers = []\<rparr> \<and>
   activeContextId noContextOwner = 0 \<and>
   backupCreations 1 (snd (activate 1 True backupDriver noContextOwner)) = 1 \<and>
   backupContext (snd (activate 1 True backupDriver noContextOwner)) 1 = Some 9 \<and>
   Destroy 1 \<notin> set [Activate 1 True backupDriver, SetActiveContext 0, Activate 1 True backupDriver] \<and>
   backupCreations 1
     (run False [Activate 1 True backupDriver, SetActiveContext 0, Activate 1 True backupDriver]
        noContextOwner) \<le> 1"
proof -
  let ?owner = "\<lparr>m_context = None, m_depthBuffer = 0, m_textureId = 0, m_frameBuffers = []\<rparr>"
  let ?ops = "[Activate 1 True backupDriver, SetActiveContext 0, Activate 1 True backupDriver]"
  have h: "heap noContextOwner 1 = Some ?owner" by (simp add: noContextOwner_def eval_defs)
  have z: "activeContextId noContextOwner = 0" by (simp add: noContextOwner_def eval_defs)
  have c0: "backupCreations 1 noContextOwner = 0"
    by (simp add: backupCreations_def noContextOwner_def eval_defs)
  have b0: "backupContext noContextOwner 1 = None" using h by (simp add: backupContext_def)
  have nd: "Destroy 1 \<notin> set ?ops" by simp
  note t = backup_context_created_at_most_once
             [of noContextOwner 1 ?owner backupDriver ?ops False]
  from t h z c0
  have "backupCreations 1 (snd (activate 1 True backupDriver noContextOwner)) = 1 \<and>
        backupContext (snd (activate 1 True backupDriver noContextOwner)) 1 = Some 9"
    by (simp add: backupDriver_def)
  moreover from t nd c0 b0
  have "backupCreations 1 (run False ?ops noContextOwner) \<le> 1"
    by simp
  ultimately show ?thesis using h z nd by blast
qed

section \<open>Generating a framebuffer for an owner and a context\<close>








lemma no_generation_in_deletes:
  "GenFramebuffers k h \<notin> set (map (DeleteFramebuffers c) hs)"
  by auto





end
